theory Spec2Isabelle
  imports Main "HOL-Library.Sublist"
begin

section \<open>The readers-writers lock of \<open>concurrency/reader-writer\<close>\<close>

text \<open>
  The embedding follows \<open>src/reader_writer/reader_writer.py\<close>, class \<open>ReadersWriters\<close>.
  Every method body runs inside \<open>with self._mutex\<close>, so a method is one atomic block on the
  fields of the object, except where it calls \<open>Condition.wait()\<close>: there the mutex is
  released and the caller is suspended. A call therefore either returns or is left blocked
  in \<open>wait()\<close>; both outcomes carry the fields as they are at that moment. What a method
  does to the condition variables, the logger and the clock is returned as a list of effects.
\<close>

subsection \<open>Data\<close>

text \<open>The five fields set by \<open>__init__\<close>. Python integers are unbounded, hence \<open>int\<close>.\<close>

record lock_state =
  active_readers :: int
  waiting_readers :: int
  is_writing :: bool
  waiting_writers :: int
  shared_resource :: int

text \<open>\<open>ReadersWriters()\<close>: the state \<open>__init__\<close> builds.\<close>

definition ReadersWriters :: lock_state where
  "ReadersWriters =
     \<lparr>active_readers = 0, waiting_readers = 0, is_writing = False,
      waiting_writers = 0, shared_resource = 0\<rparr>"

text \<open>The two condition variables \<open>self._read_cv\<close> and \<open>self._write_cv\<close>.\<close>

datatype cv = read_cv | write_cv

text \<open>\<open>LogLevel\<close> of \<open>utils.py\<close>.\<close>

datatype LogLevel = INFO | WARNING | ERROR | DEBUG

text \<open>
  What a method does besides updating the fields: \<open>cv.notify()\<close>, \<open>cv.notify_all()\<close>,
  \<open>logger.log(level, message)\<close> and \<open>time.sleep\<close> (in milliseconds).
\<close>

datatype effect = Notify cv | NotifyAll cv | Log LogLevel string | Sleep nat

text \<open>
  A call that reaches \<open>wait()\<close> is \<open>Blocked\<close>: it has not returned, the mutex is free and
  the fields are the ones given. A call that runs to its end is \<open>Returned\<close>.
\<close>

datatype 'a outcome = Returned 'a | Blocked 'a

subsection \<open>\<open>start_read\<close> and \<open>end_read\<close>\<close>

text \<open>The loop condition of \<open>start_read\<close>: \<open>self._is_writing or self._waiting_writers > 0\<close>.\<close>

definition start_read_waits :: "lock_state \<Rightarrow> bool" where
  "start_read_waits s = (is_writing s \<or> waiting_writers s > 0)"

text \<open>
  From the loop test of \<open>start_read\<close> onwards: while the condition holds the caller is in
  \<open>self._read_cv.wait()\<close>; otherwise \<open>_waiting_readers -= 1\<close>, \<open>_active_readers += 1\<close> and the
  call returns. A caller woken from \<open>wait()\<close> is at this point again.
\<close>

definition start_read_loop :: "lock_state \<Rightarrow> lock_state outcome" where
  "start_read_loop s =
     (if start_read_waits s then Blocked s
      else
        let s1 = s\<lparr>waiting_readers := waiting_readers s - 1\<rparr>;
            s2 = s1\<lparr>active_readers := active_readers s1 + 1\<rparr>
        in Returned s2)"

text \<open>The call itself: \<open>_waiting_readers += 1\<close>, then the loop.\<close>

definition start_read :: "lock_state \<Rightarrow> lock_state outcome" where
  "start_read s = start_read_loop (s\<lparr>waiting_readers := waiting_readers s + 1\<rparr>)"

text \<open>\<open>end_read\<close>: \<open>_active_readers -= 1\<close>, and \<open>_write_cv.notify()\<close> when the result is 0.\<close>

definition end_read :: "lock_state \<Rightarrow> lock_state \<times> effect list" where
  "end_read s =
     (let s1 = s\<lparr>active_readers := active_readers s - 1\<rparr>
      in (s1, if active_readers s1 = 0 then [Notify write_cv] else []))"

subsection \<open>\<open>start_write\<close> and \<open>end_write\<close>\<close>

text \<open>The loop condition of \<open>start_write\<close>: \<open>self._is_writing or self._active_readers > 0\<close>.\<close>

definition start_write_waits :: "lock_state \<Rightarrow> bool" where
  "start_write_waits s = (is_writing s \<or> active_readers s > 0)"

text \<open>
  From the loop test of \<open>start_write\<close> onwards: while the condition holds the caller is in
  \<open>self._write_cv.wait()\<close>; otherwise \<open>_waiting_writers -= 1\<close>, \<open>_is_writing = True\<close> and
  the call returns.
\<close>

definition start_write_loop :: "lock_state \<Rightarrow> lock_state outcome" where
  "start_write_loop s =
     (if start_write_waits s then Blocked s
      else
        let s1 = s\<lparr>waiting_writers := waiting_writers s - 1\<rparr>;
            s2 = s1\<lparr>is_writing := True\<rparr>
        in Returned s2)"

text \<open>The call itself: \<open>_waiting_writers += 1\<close>, then the loop.\<close>

definition start_write :: "lock_state \<Rightarrow> lock_state outcome" where
  "start_write s = start_write_loop (s\<lparr>waiting_writers := waiting_writers s + 1\<rparr>)"

text \<open>
  \<open>end_write\<close>: \<open>_is_writing = False\<close>, then \<open>_write_cv.notify()\<close> if \<open>_waiting_writers > 0\<close>
  and \<open>_read_cv.notify_all()\<close> otherwise.
\<close>

definition end_write :: "lock_state \<Rightarrow> lock_state \<times> effect list" where
  "end_write s =
     (let s1 = s\<lparr>is_writing := False\<rparr>
      in (s1, if waiting_writers s1 > 0 then [Notify write_cv] else [NotifyAll read_cv]))"

subsection \<open>The convenience methods\<close>

text \<open>Python's \<open>str\<close> of an integer, used by the f-strings of the log messages.\<close>

fun str_nat :: "nat \<Rightarrow> string" where
  "str_nat n =
     (if n < 10 then [char_of (48 + n)]
      else str_nat (n div 10) @ [char_of (48 + n mod 10)])"

definition str_int :: "int \<Rightarrow> string" where
  "str_int i = (if i < 0 then CHR ''-'' # str_nat (nat (- i)) else str_nat (nat i))"

text \<open>How a method is left: by reaching its end, or by an exception.\<close>

datatype exit = Return | Raise

text \<open>
  The \<open>ReadLock\<close> (or \<open>WriteLock\<close>) object a convenience method creates, at the moment the
  method is left: \<open>Finalized\<close> when its \<open>__del__\<close> has run, \<open>Alive\<close> when something still
  refers to it and \<open>__del__\<close> has not run.
\<close>

datatype lock_object = Finalized | Alive

text \<open>
  The caller's \<open>logger\<close>. The methods only call \<open>logger.log\<close>, and what matters to the lock
  is how that call ends: it returns (\<open>Plain\<close>); it returns having stored a reference to a
  frame of its call stack, which through \<open>f_back\<close> keeps the frame of the convenience method
  and its locals (\<open>FrameKeeping\<close>); or it raises (\<open>Raising\<close>). The repository's \<open>Logger.log\<close>
  hands the message to \<open>icecream.ic\<close>, which is not part of the sources, so the behaviour is
  a parameter.
\<close>

datatype Logger = Plain | FrameKeeping | Raising

text \<open>
  \<open>logger.log(level, message)\<close>: how it ends, whether it kept a frame, and what it printed.
\<close>

definition logger_log :: "Logger \<Rightarrow> LogLevel \<Rightarrow> string \<Rightarrow> exit \<times> bool \<times> effect list" where
  "logger_log logger level message =
     (case logger of
        Plain \<Rightarrow> (Return, False, [Log level message])
      | FrameKeeping \<Rightarrow> (Return, True, [Log level message])
      | Raising \<Rightarrow> (Raise, False, []))"

text \<open>
  A call of a convenience method: suspended in \<open>wait()\<close> inside the acquire (\<open>Waits\<close>), or
  left, with the way it was left, the state of its lock object, the fields and the effects.
\<close>

datatype call = Waits lock_state | Exits exit lock_object lock_state "effect list"

text \<open>
  The body of \<open>read_resource\<close> after \<open>_ = ReadLock(self)\<close>: \<open>logger.log\<close> with one \<open>INFO\<close>
  message holding the value of \<open>_shared_resource\<close>, then \<open>time.sleep(0.1)\<close>. An exception of
  \<open>logger.log\<close> is not caught and leaves the method. \<open>tid\<close> is what
  \<open>thread_id_to_string()\<close> returns for the caller.
\<close>

definition read_body ::
  "Logger \<Rightarrow> string \<Rightarrow> lock_state \<Rightarrow> exit \<times> bool \<times> lock_state \<times> effect list" where
  "read_body logger tid s =
     (case logger_log logger INFO
             (''Thread '' @ tid @ '' reading resource: '' @ str_int (shared_resource s)) of
        (Raise, kept, es) \<Rightarrow> (Raise, kept, s, es)
      | (Return, kept, es) \<Rightarrow> (Return, kept, s, es @ [Sleep 100]))"

text \<open>
  Leaving a convenience method. Neither method has a \<open>try\<close>, a \<open>with\<close> or a call of
  \<open>end_read\<close> or \<open>end_write\<close>: the release is the \<open>__del__\<close> of the lock object (\<open>del\<close>
  below), which the interpreter runs when the last reference to the object goes. That
  reference is the local \<open>_\<close> of the method's frame. On a return with nothing else holding
  the frame, the frame is freed and \<open>__del__\<close> runs at once. After an exception the traceback
  holds the frame, and a frame kept by the logger holds it too: then the method is left with
  the lock object alive and \<open>__del__\<close> not run.
\<close>

definition leave_method ::
  "(lock_state \<Rightarrow> lock_state \<times> effect list) \<Rightarrow> exit \<times> bool \<times> lock_state \<times> effect list \<Rightarrow> call"
  where
  "leave_method del body =
     (case body of
        (ex, kept, s, es) \<Rightarrow>
          if ex = Return \<and> \<not> kept
          then (case del s of (s', es') \<Rightarrow> Exits Return Finalized s' (es @ es'))
          else Exits ex Alive s es)"

text \<open>
  \<open>read_resource\<close>: \<open>ReadLock.__init__\<close> calls \<open>start_read\<close>, the body runs, and
  \<open>ReadLock.__del__\<close> calls \<open>end_read\<close>.
\<close>

definition read_resource :: "Logger \<Rightarrow> string \<Rightarrow> lock_state \<Rightarrow> call" where
  "read_resource logger tid s =
     (case start_read s of
        Blocked s1 \<Rightarrow> Waits s1
      | Returned s1 \<Rightarrow> leave_method end_read (read_body logger tid s1))"

text \<open>
  The body of \<open>write_resource\<close> after \<open>_ = WriteLock(self)\<close>: \<open>self._shared_resource = value\<close>
  first, then \<open>logger.log\<close> with one \<open>INFO\<close> message holding \<open>value\<close>, then
  \<open>time.sleep(0.2)\<close>.
\<close>

definition write_body ::
  "int \<Rightarrow> Logger \<Rightarrow> string \<Rightarrow> lock_state \<Rightarrow> exit \<times> bool \<times> lock_state \<times> effect list" where
  "write_body v logger tid s =
     (let s1 = s\<lparr>shared_resource := v\<rparr>
      in case logger_log logger INFO (''Thread '' @ tid @ '' wrote resource: '' @ str_int v) of
           (Raise, kept, es) \<Rightarrow> (Raise, kept, s1, es)
         | (Return, kept, es) \<Rightarrow> (Return, kept, s1, es @ [Sleep 200]))"

text \<open>
  \<open>write_resource\<close>: \<open>WriteLock.__init__\<close> calls \<open>start_write\<close>, the body runs, and
  \<open>WriteLock.__del__\<close> calls \<open>end_write\<close>.
\<close>

definition write_resource :: "int \<Rightarrow> Logger \<Rightarrow> string \<Rightarrow> lock_state \<Rightarrow> call" where
  "write_resource v logger tid s =
     (case start_write s of
        Blocked s1 \<Rightarrow> Waits s1
      | Returned s1 \<Rightarrow> leave_method end_write (write_body v logger tid s1))"

section \<open>Threads using the lock\<close>

text \<open>
  Where a thread is with respect to the lock: outside any call (\<open>Idle\<close>), suspended in
  \<open>_read_cv.wait()\<close> inside \<open>start_read\<close>, between \<open>start_read\<close> and \<open>end_read\<close>,
  suspended in \<open>_write_cv.wait()\<close> inside \<open>start_write\<close>, or between \<open>start_write\<close> and
  \<open>end_write\<close>.
\<close>

datatype phase = Idle | WaitingToRead | Reading | WaitingToWrite | Writing

text \<open>The object and the threads sharing it; a thread is named by its index in the list.\<close>

record config =
  lk :: lock_state
  threads :: "phase list"

definition init_config :: "nat \<Rightarrow> config" where
  "init_config n = \<lparr>lk = ReadersWriters, threads = replicate n Idle\<rparr>"

text \<open>
  What can happen while the mutex is free: a thread calls one of the four methods, or a
  thread suspended in \<open>wait()\<close> is woken, takes the mutex again and tests its loop condition
  once more. \<open>Wake\<close> is allowed at any moment for a waiting thread, whether the wake-up comes
  from \<open>notify\<close>, from \<open>notify_all\<close> or from nowhere, so every schedule of the program is a
  sequence of these events.
\<close>

datatype event = StartRead nat | EndRead nat | StartWrite nat | EndWrite nat | Wake nat

definition at_phase :: "config \<Rightarrow> nat \<Rightarrow> phase \<Rightarrow> bool" where
  "at_phase c t p = (t < length (threads c) \<and> threads c ! t = p)"

text \<open>Thread \<open>t\<close> after an acquiring call (or a wake-up): still waiting, or inside.\<close>

definition proceed :: "config \<Rightarrow> nat \<Rightarrow> lock_state outcome \<Rightarrow> phase \<Rightarrow> phase \<Rightarrow> config" where
  "proceed c t out waiting inside =
     (case out of
        Blocked s \<Rightarrow> \<lparr>lk = s, threads = (threads c)[t := waiting]\<rparr>
      | Returned s \<Rightarrow> \<lparr>lk = s, threads = (threads c)[t := inside]\<rparr>)"

text \<open>
  One event. A thread calls \<open>start_read\<close> or \<open>start_write\<close> only from \<open>Idle\<close>, and releases
  only what it holds: \<open>end_read\<close> from \<open>Reading\<close>, \<open>end_write\<close> from \<open>Writing\<close>. Any other
  event is not part of a run (\<open>None\<close>): this restricts the runs considered to callers
  that pair their calls, it is not a check made by the methods, which make none.
\<close>

fun step :: "config \<Rightarrow> event \<Rightarrow> config option" where
  "step c (StartRead t) =
     (if at_phase c t Idle
      then Some (proceed c t (start_read (lk c)) WaitingToRead Reading) else None)"
| "step c (EndRead t) =
     (if at_phase c t Reading
      then Some \<lparr>lk = fst (end_read (lk c)), threads = (threads c)[t := Idle]\<rparr> else None)"
| "step c (StartWrite t) =
     (if at_phase c t Idle
      then Some (proceed c t (start_write (lk c)) WaitingToWrite Writing) else None)"
| "step c (EndWrite t) =
     (if at_phase c t Writing
      then Some \<lparr>lk = fst (end_write (lk c)), threads = (threads c)[t := Idle]\<rparr> else None)"
| "step c (Wake t) =
     (if at_phase c t WaitingToRead
      then Some (proceed c t (start_read_loop (lk c)) WaitingToRead Reading)
      else if at_phase c t WaitingToWrite
      then Some (proceed c t (start_write_loop (lk c)) WaitingToWrite Writing)
      else None)"

fun run :: "config \<Rightarrow> event list \<Rightarrow> config option" where
  "run c [] = Some c"
| "run c (e # es) = (case step c e of None \<Rightarrow> None | Some c' \<Rightarrow> run c' es)"

text \<open>How many threads are in a given phase.\<close>

definition in_phase :: "phase \<Rightarrow> config \<Rightarrow> int" where
  "in_phase p c = int (count_list (threads c) p)"

text \<open>The counters of the object agree with where the threads are.\<close>

definition consistent :: "config \<Rightarrow> bool" where
  "consistent c =
     (active_readers (lk c) = in_phase Reading c
      \<and> waiting_readers (lk c) = in_phase WaitingToRead c
      \<and> waiting_writers (lk c) = in_phase WaitingToWrite c
      \<and> in_phase Writing c = (if is_writing (lk c) then 1 else 0)
      \<and> (is_writing (lk c) \<longrightarrow> active_readers (lk c) = 0))"

section \<open>Contracts of the four operations\<close>

text \<open>
  C3. When no writer is active and none is waiting, \<open>start_read\<close> returns (it does not
  block, and the method has no error outcome): \<open>waiting_readers\<close> is incremented before the
  loop and decremented after it, so it ends unchanged, \<open>active_readers\<close> is one more, and
  \<open>is_writing\<close>, \<open>waiting_writers\<close> and \<open>shared_resource\<close> are untouched.
\<close>

theorem start_read_contract:
  assumes "\<not> is_writing s" and "waiting_writers s = 0"
  shows "\<exists>s'. start_read s = Returned s'
           \<and> start_read_loop (s\<lparr>waiting_readers := waiting_readers s + 1\<rparr>) = Returned s'
           \<and> active_readers s' = active_readers s + 1
           \<and> waiting_readers s' = waiting_readers s
           \<and> is_writing s' = is_writing s
           \<and> waiting_writers s' = waiting_writers s
           \<and> shared_resource s' = shared_resource s"
  using assms by (simp add: start_read_def start_read_loop_def start_read_waits_def)

theorem start_read_contract_witness:
  "\<not> is_writing ReadersWriters \<and> waiting_writers ReadersWriters = 0
   \<and> start_read ReadersWriters = Returned (ReadersWriters\<lparr>active_readers := 1\<rparr>)"
proof -
  have a: "\<not> is_writing ReadersWriters" and b: "waiting_writers ReadersWriters = 0"
    by (simp_all add: ReadersWriters_def)
  from start_read_contract [OF a b] obtain s' where
    r: "start_read ReadersWriters = Returned s'"
    and f: "active_readers s' = active_readers ReadersWriters + 1"
      "waiting_readers s' = waiting_readers ReadersWriters"
      "is_writing s' = is_writing ReadersWriters"
      "waiting_writers s' = waiting_writers ReadersWriters"
      "shared_resource s' = shared_resource ReadersWriters"
    by blast
  from f have "s' = ReadersWriters\<lparr>active_readers := 1\<rparr>"
    by (simp add: ReadersWriters_def)
  with a b r show ?thesis by simp
qed

text \<open>
  C4. When no writer is active and no reader is inside, \<open>start_write\<close> returns with
  \<open>is_writing\<close> set; \<open>waiting_writers\<close> is incremented before the loop and decremented after
  it, so it ends unchanged, and \<open>active_readers\<close>, \<open>waiting_readers\<close> and \<open>shared_resource\<close>
  are untouched.
\<close>

theorem start_write_contract:
  assumes "\<not> is_writing s" and "active_readers s = 0"
  shows "\<exists>s'. start_write s = Returned s'
           \<and> start_write_loop (s\<lparr>waiting_writers := waiting_writers s + 1\<rparr>) = Returned s'
           \<and> is_writing s'
           \<and> waiting_writers s' = waiting_writers s
           \<and> active_readers s' = active_readers s
           \<and> waiting_readers s' = waiting_readers s
           \<and> shared_resource s' = shared_resource s"
  using assms by (simp add: start_write_def start_write_loop_def start_write_waits_def)

theorem start_write_contract_witness:
  "\<not> is_writing ReadersWriters \<and> active_readers ReadersWriters = 0
   \<and> start_write ReadersWriters = Returned (ReadersWriters\<lparr>is_writing := True\<rparr>)"
proof -
  have a: "\<not> is_writing ReadersWriters" and b: "active_readers ReadersWriters = 0"
    by (simp_all add: ReadersWriters_def)
  from start_write_contract [OF a b] obtain s' where
    r: "start_write ReadersWriters = Returned s'"
    and f: "is_writing s'"
      "waiting_writers s' = waiting_writers ReadersWriters"
      "active_readers s' = active_readers ReadersWriters"
      "waiting_readers s' = waiting_readers ReadersWriters"
      "shared_resource s' = shared_resource ReadersWriters"
    by blast
  from f have "s' = ReadersWriters\<lparr>is_writing := True\<rparr>"
    by (simp add: ReadersWriters_def)
  with a b r show ?thesis by simp
qed

text \<open>
  C5. In every state \<open>end_write\<close> clears \<open>is_writing\<close> and leaves the three counters and
  \<open>shared_resource\<close> as they were. It issues exactly one notification: \<open>notify()\<close> on the
  write condition variable (which wakes one waiter) if and only if \<open>waiting_writers > 0\<close>,
  and \<open>notify_all()\<close> on the read condition variable otherwise.
\<close>

theorem end_write_contract:
  "\<exists>s' es. end_write s = (s', es)
     \<and> is_writing s' = False
     \<and> active_readers s' = active_readers s
     \<and> waiting_readers s' = waiting_readers s
     \<and> waiting_writers s' = waiting_writers s
     \<and> shared_resource s' = shared_resource s
     \<and> (es = [Notify write_cv]) = (waiting_writers s > 0)
     \<and> (es = [NotifyAll read_cv]) = (\<not> waiting_writers s > 0)"
  by (simp add: end_write_def)

theorem end_write_contract_witness:
  "end_write (ReadersWriters\<lparr>is_writing := True, waiting_writers := 2, waiting_readers := 3\<rparr>)
     = (ReadersWriters\<lparr>waiting_writers := 2, waiting_readers := 3\<rparr>, [Notify write_cv])
   \<and> end_write (ReadersWriters\<lparr>is_writing := True, waiting_readers := 3\<rparr>)
     = (ReadersWriters\<lparr>waiting_readers := 3\<rparr>, [NotifyAll read_cv])"
proof -
  let ?a = "ReadersWriters\<lparr>is_writing := True, waiting_writers := 2, waiting_readers := 3\<rparr>"
  let ?b = "ReadersWriters\<lparr>is_writing := True, waiting_readers := 3\<rparr>"
  from end_write_contract [of ?a] obtain s' es where
    "end_write ?a = (s', es)" "is_writing s' = False"
    "active_readers s' = active_readers ?a" "waiting_readers s' = waiting_readers ?a"
    "waiting_writers s' = waiting_writers ?a" "shared_resource s' = shared_resource ?a"
    "(es = [Notify write_cv]) = (waiting_writers ?a > 0)"
    by blast
  then have a: "end_write ?a
      = (ReadersWriters\<lparr>waiting_writers := 2, waiting_readers := 3\<rparr>, [Notify write_cv])"
    by (simp add: ReadersWriters_def)
  from end_write_contract [of ?b] obtain s' es where
    "end_write ?b = (s', es)" "is_writing s' = False"
    "active_readers s' = active_readers ?b" "waiting_readers s' = waiting_readers ?b"
    "waiting_writers s' = waiting_writers ?b" "shared_resource s' = shared_resource ?b"
    "(es = [NotifyAll read_cv]) = (\<not> waiting_writers ?b > 0)"
    by blast
  then have b: "end_write ?b = (ReadersWriters\<lparr>waiting_readers := 3\<rparr>, [NotifyAll read_cv])"
    by (simp add: ReadersWriters_def)
  from a b show ?thesis by simp
qed

text \<open>
  C6. On a state with at least one active reader, \<open>end_read\<close> takes one off
  \<open>active_readers\<close> and leaves \<open>waiting_readers\<close>, \<open>waiting_writers\<close>, \<open>is_writing\<close> and
  \<open>shared_resource\<close> as they were. It issues \<open>notify()\<close> on the write condition variable
  (which wakes one waiter) if and only if the decremented count is 0, and nothing otherwise.
\<close>

theorem end_read_contract:
  assumes "1 \<le> active_readers s"
  shows "\<exists>s' es. end_read s = (s', es)
           \<and> active_readers s' = active_readers s - 1
           \<and> 0 \<le> active_readers s'
           \<and> waiting_readers s' = waiting_readers s
           \<and> waiting_writers s' = waiting_writers s
           \<and> is_writing s' = is_writing s
           \<and> shared_resource s' = shared_resource s
           \<and> (es = [Notify write_cv]) = (active_readers s' = 0)
           \<and> (es = []) = (active_readers s' \<noteq> 0)"
  using assms by (simp add: end_read_def)

theorem end_read_contract_witness:
  "1 \<le> active_readers (ReadersWriters\<lparr>active_readers := 1, waiting_writers := 1\<rparr>)
   \<and> end_read (ReadersWriters\<lparr>active_readers := 1, waiting_writers := 1\<rparr>)
       = (ReadersWriters\<lparr>waiting_writers := 1\<rparr>, [Notify write_cv])
   \<and> 1 \<le> active_readers (ReadersWriters\<lparr>active_readers := 2\<rparr>)
   \<and> end_read (ReadersWriters\<lparr>active_readers := 2\<rparr>)
       = (ReadersWriters\<lparr>active_readers := 1\<rparr>, [])"
proof -
  let ?a = "ReadersWriters\<lparr>active_readers := 1, waiting_writers := 1\<rparr>"
  let ?b = "ReadersWriters\<lparr>active_readers := 2\<rparr>"
  have ha: "1 \<le> active_readers ?a" and hb: "1 \<le> active_readers ?b"
    by (simp_all add: ReadersWriters_def)
  from end_read_contract [OF ha] obtain s' es where
    "end_read ?a = (s', es)" "active_readers s' = active_readers ?a - 1"
    "waiting_readers s' = waiting_readers ?a" "waiting_writers s' = waiting_writers ?a"
    "is_writing s' = is_writing ?a" "shared_resource s' = shared_resource ?a"
    "(es = [Notify write_cv]) = (active_readers s' = 0)"
    by blast
  then have a: "end_read ?a = (ReadersWriters\<lparr>waiting_writers := 1\<rparr>, [Notify write_cv])"
    by (simp add: ReadersWriters_def)
  from end_read_contract [OF hb] obtain s' es where
    "end_read ?b = (s', es)" "active_readers s' = active_readers ?b - 1"
    "waiting_readers s' = waiting_readers ?b" "waiting_writers s' = waiting_writers ?b"
    "is_writing s' = is_writing ?b" "shared_resource s' = shared_resource ?b"
    "(es = []) = (active_readers s' \<noteq> 0)"
    by blast
  then have b: "end_read ?b = (ReadersWriters\<lparr>active_readers := 1\<rparr>, [])"
    by (simp add: ReadersWriters_def)
  from ha hb a b show ?thesis by simp
qed

section \<open>The convenience methods\<close>

lemmas method_simps = read_resource_def write_resource_def read_body_def write_body_def
  leave_method_def logger_log_def start_read_def start_read_loop_def start_read_waits_def
  start_write_def start_write_loop_def start_write_waits_def end_read_def end_write_def

text \<open>
  With a logger that returns and keeps nothing, the release does happen as the method ends:
  \<open>read_resource\<close> leaves every field as it found it, and \<open>write_resource(42)\<close> on a fresh
  object ends with \<open>shared_resource = 42\<close> and \<open>is_writing\<close> false.
\<close>

lemma read_resource_plain:
  assumes "\<not> is_writing s" and "waiting_writers s = 0"
  shows "read_resource Plain tid s =
           Exits Return Finalized s
             ([Log INFO (''Thread '' @ tid @ '' reading resource: '' @ str_int (shared_resource s)),
               Sleep 100]
              @ (if active_readers s = 0 then [Notify write_cv] else []))"
  using assms by (simp add: method_simps)

lemma str_int_42: "str_int 42 = ''42''"
  by code_simp

lemma str_int_0: "str_int 0 = ''0''"
  by code_simp

lemma write_resource_plain:
  "write_resource 42 Plain tid ReadersWriters =
     Exits Return Finalized
       \<lparr>active_readers = 0, waiting_readers = 0, is_writing = False,
        waiting_writers = 0, shared_resource = 42\<rparr>
       [Log INFO (''Thread '' @ tid @ '' wrote resource: 42''), Sleep 200, NotifyAll read_cv]"
  by (simp add: method_simps ReadersWriters_def str_int_42)

text \<open>
  C8. The claim is that \<open>read_resource\<close> releases the read lock on every exit path, so that
  \<open>active_readers\<close> is what it was before the call. The code leaves the release to
  \<open>ReadLock.__del__\<close>. On a fresh object, when \<open>logger.log\<close> raises, the method is left by
  the exception with \<open>active_readers = 1\<close> and \<open>end_read\<close> not run; when \<open>logger.log\<close> keeps
  a frame, the method returns with \<open>active_readers = 1\<close> and \<open>end_read\<close> not run.
\<close>

theorem read_resource_lock_kept:
  "read_resource Raising ''7'' ReadersWriters =
     Exits Raise Alive (ReadersWriters\<lparr>active_readers := 1\<rparr>) []
   \<and> read_resource FrameKeeping ''7'' ReadersWriters =
     Exits Return Alive (ReadersWriters\<lparr>active_readers := 1\<rparr>)
       [Log INFO ''Thread 7 reading resource: 0'', Sleep 100]"
  by (simp add: method_simps ReadersWriters_def str_int_0)

text \<open>
  C9. The claim is that after \<open>write_resource(42, logger)\<close> on a fresh object
  \<open>shared_resource = 42\<close> and \<open>is_writing\<close> is false. The code leaves the release to
  \<open>WriteLock.__del__\<close>. When \<open>logger.log\<close> keeps a frame, the method returns with
  \<open>shared_resource = 42\<close> but \<open>is_writing\<close> still true and \<open>end_write\<close> not run. When
  \<open>logger.log\<close> raises, the method is left with \<open>is_writing\<close> true as well, and with 42
  already stored: the store comes before the logging.
\<close>

theorem write_resource_lock_kept:
  "write_resource 42 FrameKeeping ''7'' ReadersWriters =
     Exits Return Alive
       \<lparr>active_readers = 0, waiting_readers = 0, is_writing = True,
        waiting_writers = 0, shared_resource = 42\<rparr>
       [Log INFO ''Thread 7 wrote resource: 42'', Sleep 200]
   \<and> write_resource 42 Raising ''7'' ReadersWriters =
     Exits Raise Alive
       \<lparr>active_readers = 0, waiting_readers = 0, is_writing = True,
        waiting_writers = 0, shared_resource = 42\<rparr>
       []"
  by (simp add: method_simps ReadersWriters_def str_int_42)

section \<open>Runs of the threads\<close>

subsection \<open>The counters agree with the threads\<close>

lemma count_list_update:
  "i < length xs \<Longrightarrow>
   int (count_list (xs[i := v]) p) =
     int (count_list xs p) - (if xs ! i = p then 1 else 0) + (if v = p then 1 else 0)"
proof (induction xs arbitrary: i)
  case Nil then show ?case by simp
next
  case (Cons x xs)
  show ?case
  proof (cases i)
    case 0 then show ?thesis by simp
  next
    case (Suc j)
    with Cons.prems have "j < length xs" by simp
    from Cons.IH [OF this] Suc show ?thesis by (simp split: if_splits)
  qed
qed

lemma count_list_nth_pos: "i < length xs \<Longrightarrow> 0 < count_list xs (xs ! i)"
  using count_list_0_iff [of xs "xs ! i"] nth_mem [of i xs] by auto

lemma in_phase_update:
  "t < length (threads c) \<Longrightarrow>
   in_phase p \<lparr>lk = s, threads = (threads c)[t := v]\<rparr> =
     in_phase p c - (if threads c ! t = p then 1 else 0) + (if v = p then 1 else 0)"
  by (simp add: in_phase_def count_list_update)

lemma in_phase_nonneg: "0 \<le> in_phase p c"
  by (simp add: in_phase_def)

lemma in_phase_pos: "at_phase c t p \<Longrightarrow> 1 \<le> in_phase p c"
  using count_list_nth_pos [of t "threads c"] by (auto simp: in_phase_def at_phase_def)

lemma step_consistent:
  assumes "consistent c" and "step c e = Some c'"
  shows "consistent c'"
proof (cases e)
  case (StartRead t)
  with assms show ?thesis
  using in_phase_nonneg [of WaitingToWrite c]
  by (auto simp: consistent_def at_phase_def proceed_def in_phase_update
      start_read_def start_read_loop_def start_read_waits_def
      split: if_splits)
next
  case (EndRead t)
  with assms show ?thesis
  using in_phase_pos [of c t Reading]
  by (auto simp: consistent_def at_phase_def  in_phase_update
      end_read_def 
      split: if_splits)
next
  case (StartWrite t)
  with assms show ?thesis
  using in_phase_nonneg [of Reading c]
  by (auto simp: consistent_def at_phase_def proceed_def in_phase_update
      start_write_def start_write_loop_def start_write_waits_def
      split: if_splits)
next
  case (EndWrite t)
  with assms show ?thesis
  using in_phase_pos [of c t Writing]
  by (auto simp: consistent_def at_phase_def  in_phase_update
      end_write_def 
      split: if_splits)
next
  case (Wake t)
  with assms show ?thesis
  using in_phase_nonneg [of Reading c] in_phase_nonneg [of WaitingToWrite c]
  by (auto simp: consistent_def at_phase_def proceed_def in_phase_update
      start_read_loop_def start_read_waits_def
      start_write_loop_def start_write_waits_def
      split: if_splits)
qed

lemma init_consistent: "consistent (init_config n)"
  by (simp add: consistent_def init_config_def in_phase_def ReadersWriters_def)

lemma run_consistent:
  "consistent c \<Longrightarrow> run c es = Some c' \<Longrightarrow> consistent c'"
proof (induction es arbitrary: c)
  case Nil then show ?case by simp
next
  case (Cons e es)
  then show ?case by (auto split: option.splits dest: step_consistent)
qed


subsection \<open>Readers behind a waiting writer\<close>

lemma step_length: "step c e = Some c' \<Longrightarrow> length (threads c') = length (threads c)"
  by (cases e) (auto simp: proceed_def split: if_splits outcome.splits)

lemma reader_enters:
  assumes "consistent c" and "step c e = Some c'"
    and "r < length (threads c)" and "threads c ! r \<noteq> Reading" and "threads c' ! r = Reading"
  shows "\<not> is_writing (lk c) \<and> waiting_writers (lk c) = 0"
proof (cases e)
  case (StartRead t)
  with assms show ?thesis
    using in_phase_nonneg [of WaitingToWrite c]
    by (auto simp: consistent_def at_phase_def proceed_def nth_list_update
        start_read_def start_read_loop_def start_read_waits_def split: if_splits)
next
  case (EndRead t)
  with assms show ?thesis
    by (auto simp: at_phase_def nth_list_update split: if_splits)
next
  case (StartWrite t)
  with assms show ?thesis
    by (auto simp: at_phase_def proceed_def nth_list_update
        start_write_def start_write_loop_def split: if_splits)
next
  case (EndWrite t)
  with assms show ?thesis
    by (auto simp: at_phase_def nth_list_update split: if_splits)
next
  case (Wake t)
  with assms show ?thesis
    using in_phase_nonneg [of WaitingToWrite c]
    by (auto simp: consistent_def at_phase_def proceed_def nth_list_update
        start_read_loop_def start_read_waits_def start_write_loop_def split: if_splits)
qed

lemma waiting_writer_step:
  assumes "step c e = Some c'" and "at_phase c w WaitingToWrite"
  shows "at_phase c' w WaitingToWrite \<or> at_phase c' w Writing"
  using assms
  by (cases e)
    (auto simp: at_phase_def proceed_def nth_list_update split: if_splits outcome.splits)

lemma no_writer_about:
  assumes "consistent c" and "\<not> is_writing (lk c)" and "waiting_writers (lk c) = 0"
  shows "Writing \<notin> set (threads c) \<and> WaitingToWrite \<notin> set (threads c)"
  using assms count_list_0_iff [of "threads c" Writing]
    count_list_0_iff [of "threads c" WaitingToWrite]
  by (auto simp: consistent_def in_phase_def)

lemma writer_first:
  assumes "consistent c" and "at_phase c w WaitingToWrite"
    and "r < length (threads c)" and "threads c ! r \<noteq> Reading"
    and "run c es = Some c'" and "threads c' ! r = Reading"
  shows "\<exists>es1 es2 c1. es = es1 @ es2 \<and> run c es1 = Some c1 \<and> at_phase c1 w Writing
           \<and> (\<forall>p cp. prefix p es1 \<longrightarrow> run c p = Some cp \<longrightarrow> threads cp ! r \<noteq> Reading)"
  using assms
proof (induction es arbitrary: c)
  case Nil
  then show ?case by simp
next
  case (Cons e es)
  from Cons.prems(5) obtain c2 where st: "step c e = Some c2" and rn: "run c2 es = Some c'"
    by (auto split: option.splits)
  have con2: "consistent c2" using Cons.prems(1) st by (rule step_consistent)
  have len2: "r < length (threads c2)" using step_length [OF st] Cons.prems(3) by simp
  have "1 \<le> in_phase WaitingToWrite c" using Cons.prems(2) by (rule in_phase_pos)
  then have "waiting_writers (lk c) \<noteq> 0" using Cons.prems(1) by (simp add: consistent_def)
  then have nr2: "threads c2 ! r \<noteq> Reading"
    using reader_enters [OF Cons.prems(1) st Cons.prems(3) Cons.prems(4)] by blast
  from waiting_writer_step [OF st Cons.prems(2)] show ?case
  proof
    assume w2: "at_phase c2 w WaitingToWrite"
    from Cons.IH [OF con2 w2 len2 nr2 rn Cons.prems(6)] obtain es1 es2 c1 where
      a: "es = es1 @ es2" and b: "run c2 es1 = Some c1" and d: "at_phase c1 w Writing"
      and f: "\<forall>p cp. prefix p es1 \<longrightarrow> run c2 p = Some cp \<longrightarrow> threads cp ! r \<noteq> Reading"
      by blast
    have "\<forall>p cp. prefix p (e # es1) \<longrightarrow> run c p = Some cp \<longrightarrow> threads cp ! r \<noteq> Reading"
    proof (intro allI impI)
      fix p cp assume pp: "prefix p (e # es1)" and rp: "run c p = Some cp"
      show "threads cp ! r \<noteq> Reading"
      proof (cases p)
        case Nil
        with rp Cons.prems(4) show ?thesis by simp
      next
        case (Cons x q)
        with pp have "x = e" and "prefix q es1" by simp_all
        with rp Cons st have "run c2 q = Some cp" by simp
        with f \<open>prefix q es1\<close> show ?thesis by blast
      qed
    qed
    moreover have "e # es = (e # es1) @ es2" using a by simp
    moreover have "run c (e # es1) = Some c1" using st b by simp
    ultimately show ?thesis using d by blast
  next
    assume w2: "at_phase c2 w Writing"
    have "\<forall>p cp. prefix p [e] \<longrightarrow> run c p = Some cp \<longrightarrow> threads cp ! r \<noteq> Reading"
    proof (intro allI impI)
      fix p cp assume pp: "prefix p [e]" and rp: "run c p = Some cp"
      show "threads cp ! r \<noteq> Reading"
      proof (cases p)
        case Nil
        with rp Cons.prems(4) show ?thesis by simp
      next
        case (Cons x q)
        with pp have "x = e" and "q = []" by simp_all
        with rp Cons st have "cp = c2" by simp
        with nr2 show ?thesis by simp
      qed
    qed
    moreover have "e # es = [e] @ es" by simp
    moreover have "run c [e] = Some c2" using st by simp
    ultimately show ?thesis using w2 by blast
  qed
qed


subsection \<open>Invariants, writer preference, balanced runs\<close>

lemmas run_simps = init_config_def ReadersWriters_def at_phase_def proceed_def
  start_read_def start_read_loop_def start_read_waits_def
  start_write_def start_write_loop_def start_write_waits_def end_read_def end_write_def

text \<open>
  C1. In every configuration reached from the initial one (all counters 0, \<open>is_writing\<close>
  false) by calls of the four operations, where a thread enters only when its loop condition
  lets it and releases only what it acquired: \<open>is_writing\<close> implies \<open>active_readers = 0\<close>
  (so \<open>active_readers > 0\<close> implies no writer), the three counters are not negative, at most
  one thread is between \<open>start_write\<close> and \<open>end_write\<close>, and none is reading while one
  writes.
\<close>

theorem lock_invariants:
  assumes "run (init_config n) es = Some c"
  shows "(is_writing (lk c) \<longrightarrow> active_readers (lk c) = 0)
         \<and> (0 < active_readers (lk c) \<longrightarrow> \<not> is_writing (lk c))
         \<and> 0 \<le> active_readers (lk c)
         \<and> 0 \<le> waiting_readers (lk c)
         \<and> 0 \<le> waiting_writers (lk c)
         \<and> count_list (threads c) Writing \<le> 1
         \<and> (Writing \<in> set (threads c) \<longrightarrow> Reading \<notin> set (threads c))"
proof -
  have con: "consistent c"
    using init_consistent assms by (rule run_consistent)
  have w: "Writing \<in> set (threads c) \<longrightarrow> Reading \<notin> set (threads c)"
  proof
    assume "Writing \<in> set (threads c)"
    then have "count_list (threads c) Writing \<noteq> 0" by (simp add: count_list_0_iff)
    with con have "is_writing (lk c)"
      by (auto simp: consistent_def in_phase_def split: if_splits)
    with con have "count_list (threads c) Reading = 0"
      by (simp add: consistent_def in_phase_def)
    then show "Reading \<notin> set (threads c)" by (simp add: count_list_0_iff)
  qed
  from con have "count_list (threads c) Writing \<le> 1"
    by (auto simp: consistent_def in_phase_def split: if_splits)
  with con w show ?thesis
    using in_phase_nonneg [of Reading c] in_phase_nonneg [of WaitingToRead c]
      in_phase_nonneg [of WaitingToWrite c]
    by (auto simp: consistent_def)
qed

theorem lock_invariants_witness:
  "run (init_config 3) [StartRead 0, StartWrite 1, StartRead 2, EndRead 0, Wake 1] =
     Some \<lparr>lk = \<lparr>active_readers = 0, waiting_readers = 1, is_writing = True,
                 waiting_writers = 0, shared_resource = 0\<rparr>,
           threads = [Idle, Writing, WaitingToRead]\<rparr>
   \<and> count_list [Idle, Writing, WaitingToRead] Writing \<le> 1
   \<and> Reading \<notin> set [Idle, Writing, WaitingToRead]"
proof -
  have r: "run (init_config 3) [StartRead 0, StartWrite 1, StartRead 2, EndRead 0, Wake 1] =
     Some \<lparr>lk = \<lparr>active_readers = 0, waiting_readers = 1, is_writing = True,
                 waiting_writers = 0, shared_resource = 0\<rparr>,
           threads = [Idle, Writing, WaitingToRead]\<rparr>"
    by (simp add: run_simps eval_nat_numeral)
  from lock_invariants [OF r] r show ?thesis by simp
qed

text \<open>
  C7. After any run from the initial configuration in which every acquire has been followed
  by its release (every thread is back to \<open>Idle\<close>), \<open>active_readers\<close>, \<open>waiting_readers\<close>
  and \<open>waiting_writers\<close> are 0 and \<open>is_writing\<close> is false.
\<close>

theorem balanced_cycles_idle:
  assumes "run (init_config n) es = Some c" and "\<forall>p \<in> set (threads c). p = Idle"
  shows "active_readers (lk c) = 0 \<and> \<not> is_writing (lk c)
         \<and> waiting_readers (lk c) = 0 \<and> waiting_writers (lk c) = 0"
proof -
  have con: "consistent c"
    using init_consistent assms(1) by (rule run_consistent)
  from assms(2) have "Reading \<notin> set (threads c)" "WaitingToRead \<notin> set (threads c)"
    "WaitingToWrite \<notin> set (threads c)" "Writing \<notin> set (threads c)"
    by auto
  then have "in_phase Reading c = 0" "in_phase WaitingToRead c = 0"
    "in_phase WaitingToWrite c = 0" "in_phase Writing c = 0"
    by (simp_all add: in_phase_def)
  with con show ?thesis
    by (auto simp: consistent_def split: if_splits)
qed

theorem balanced_cycles_idle_witness:
  "run (init_config 3)
     [StartRead 0, StartWrite 1, StartRead 2, EndRead 0, Wake 1, EndWrite 1, Wake 2, EndRead 2] =
     Some \<lparr>lk = \<lparr>active_readers = 0, waiting_readers = 0, is_writing = False,
                 waiting_writers = 0, shared_resource = 0\<rparr>,
           threads = [Idle, Idle, Idle]\<rparr>"
proof -
  let ?es = "[StartRead 0, StartWrite 1, StartRead 2, EndRead 0, Wake 1, EndWrite 1, Wake 2,
    EndRead 2]"
  obtain c where r: "run (init_config 3) ?es = Some c" and t: "threads c = [Idle, Idle, Idle]"
    and s: "shared_resource (lk c) = 0"
    by (simp add: run_simps eval_nat_numeral)
  from t have i: "\<forall>p \<in> set (threads c). p = Idle" by simp
  from balanced_cycles_idle [OF r i] t s have
    "c = \<lparr>lk = \<lparr>active_readers = 0, waiting_readers = 0, is_writing = False,
                 waiting_writers = 0, shared_resource = 0\<rparr>,
           threads = [Idle, Idle, Idle]\<rparr>"
    by (cases c, cases "lk c") simp
  with r show ?thesis by simp
qed

text \<open>
  C2. Writer preference, in every reachable configuration. First: a step that makes a thread
  a reader (its \<open>start_read\<close> returns, at once or after a wake-up) happens only when
  \<open>is_writing\<close> is false and \<open>waiting_writers = 0\<close>, that is when no thread is writing or
  waiting to write. Second: if a writer \<open>w\<close> is waiting and a thread \<open>r\<close> is not reading,
  then in any run after which \<open>r\<close> is reading, \<open>w\<close> has acquired the write lock at some
  earlier point, and up to that point \<open>r\<close> was never reading.
\<close>

theorem writer_preference:
  assumes "run (init_config n) es0 = Some c"
  shows "(\<forall>e c' r. step c e = Some c' \<longrightarrow> r < length (threads c) \<longrightarrow>
            threads c ! r \<noteq> Reading \<longrightarrow> threads c' ! r = Reading \<longrightarrow>
              \<not> is_writing (lk c) \<and> waiting_writers (lk c) = 0
              \<and> Writing \<notin> set (threads c) \<and> WaitingToWrite \<notin> set (threads c))
         \<and> (\<forall>w r es c'. at_phase c w WaitingToWrite \<longrightarrow> r < length (threads c) \<longrightarrow>
            threads c ! r \<noteq> Reading \<longrightarrow> run c es = Some c' \<longrightarrow> threads c' ! r = Reading \<longrightarrow>
              (\<exists>es1 es2 c1. es = es1 @ es2 \<and> run c es1 = Some c1 \<and> at_phase c1 w Writing
                 \<and> (\<forall>p cp. prefix p es1 \<longrightarrow> run c p = Some cp \<longrightarrow>
                       threads cp ! r \<noteq> Reading)))"
proof -
  have con: "consistent c"
    using init_consistent assms by (rule run_consistent)
  show ?thesis
  proof (intro conjI allI impI)
    fix e c' r
    assume "step c e = Some c'" "r < length (threads c)" "threads c ! r \<noteq> Reading"
      "threads c' ! r = Reading"
    with con have g: "\<not> is_writing (lk c) \<and> waiting_writers (lk c) = 0"
      by (rule reader_enters)
    then show "\<not> is_writing (lk c)" and "waiting_writers (lk c) = 0" by simp_all
    from g no_writer_about [OF con] show "Writing \<notin> set (threads c)"
      and "WaitingToWrite \<notin> set (threads c)" by simp_all
  next
    fix w r es c'
    assume "at_phase c w WaitingToWrite" "r < length (threads c)" "threads c ! r \<noteq> Reading"
      "run c es = Some c'" "threads c' ! r = Reading"
    with con show "\<exists>es1 es2 c1. es = es1 @ es2 \<and> run c es1 = Some c1 \<and> at_phase c1 w Writing
        \<and> (\<forall>p cp. prefix p es1 \<longrightarrow> run c p = Some cp \<longrightarrow> threads cp ! r \<noteq> Reading)"
      by (rule writer_first)
  qed
qed


theorem writer_preference_witness:
  "run (init_config 3) [StartRead 0, StartWrite 1, StartRead 2, EndRead 0, Wake 1, EndWrite 1] =
     Some \<lparr>lk = ReadersWriters\<lparr>waiting_readers := 1\<rparr>, threads = [Idle, Idle, WaitingToRead]\<rparr>
   \<and> step \<lparr>lk = ReadersWriters\<lparr>waiting_readers := 1\<rparr>, threads = [Idle, Idle, WaitingToRead]\<rparr>
        (Wake 2) =
     Some \<lparr>lk = ReadersWriters\<lparr>active_readers := 1\<rparr>, threads = [Idle, Idle, Reading]\<rparr>
   \<and> \<not> is_writing (ReadersWriters\<lparr>waiting_readers := 1\<rparr>)
   \<and> waiting_writers (ReadersWriters\<lparr>waiting_readers := 1\<rparr>) = 0
   \<and> run (init_config 3) [StartRead 0, StartWrite 1] =
     Some \<lparr>lk = ReadersWriters\<lparr>active_readers := 1, waiting_writers := 1\<rparr>,
           threads = [Reading, WaitingToWrite, Idle]\<rparr>
   \<and> run \<lparr>lk = ReadersWriters\<lparr>active_readers := 1, waiting_writers := 1\<rparr>,
           threads = [Reading, WaitingToWrite, Idle]\<rparr>
        [StartRead 2, EndRead 0, Wake 2, Wake 1, EndWrite 1, Wake 2] =
     Some \<lparr>lk = ReadersWriters\<lparr>active_readers := 1\<rparr>, threads = [Idle, Idle, Reading]\<rparr>
   \<and> (\<exists>es1 es2 c1.
         [StartRead 2, EndRead 0, Wake 2, Wake 1, EndWrite 1, Wake 2] = es1 @ es2
         \<and> run \<lparr>lk = ReadersWriters\<lparr>active_readers := 1, waiting_writers := 1\<rparr>,
                 threads = [Reading, WaitingToWrite, Idle]\<rparr> es1 = Some c1
         \<and> at_phase c1 1 Writing
         \<and> (\<forall>p cp. prefix p es1 \<longrightarrow>
               run \<lparr>lk = ReadersWriters\<lparr>active_readers := 1, waiting_writers := 1\<rparr>,
                     threads = [Reading, WaitingToWrite, Idle]\<rparr> p = Some cp \<longrightarrow>
               threads cp ! 2 \<noteq> Reading))"
proof -
  let ?A = "\<lparr>lk = ReadersWriters\<lparr>waiting_readers := 1\<rparr>, threads = [Idle, Idle, WaitingToRead]\<rparr>"
  let ?A' = "\<lparr>lk = ReadersWriters\<lparr>active_readers := 1\<rparr>, threads = [Idle, Idle, Reading]\<rparr>"
  let ?B = "\<lparr>lk = ReadersWriters\<lparr>active_readers := 1, waiting_writers := 1\<rparr>,
             threads = [Reading, WaitingToWrite, Idle]\<rparr>"
  let ?es = "[StartRead 2, EndRead 0, Wake 2, Wake 1, EndWrite 1, Wake 2]"
  have ra: "run (init_config 3)
      [StartRead 0, StartWrite 1, StartRead 2, EndRead 0, Wake 1, EndWrite 1] = Some ?A"
    by (simp add: run_simps eval_nat_numeral)
  have sa: "step ?A (Wake 2) = Some ?A'"
    by (simp add: run_simps eval_nat_numeral)
  have la: "2 < length (threads ?A)" "threads ?A ! 2 \<noteq> Reading" "threads ?A' ! 2 = Reading"
    by (simp_all add: eval_nat_numeral)
  from writer_preference [OF ra] have
    "\<forall>e c' r. step ?A e = Some c' \<longrightarrow> r < length (threads ?A) \<longrightarrow>
        threads ?A ! r \<noteq> Reading \<longrightarrow> threads c' ! r = Reading \<longrightarrow>
          \<not> is_writing (lk ?A) \<and> waiting_writers (lk ?A) = 0
          \<and> Writing \<notin> set (threads ?A) \<and> WaitingToWrite \<notin> set (threads ?A)"
    by (rule conjunct1)
  with sa la have ga: "\<not> is_writing (lk ?A) \<and> waiting_writers (lk ?A) = 0"
    by blast
  have rb: "run (init_config 3) [StartRead 0, StartWrite 1] = Some ?B"
    by (simp add: run_simps eval_nat_numeral)
  have sb: "run ?B ?es = Some ?A'"
    by (simp add: run_simps eval_nat_numeral)
  have lb: "at_phase ?B 1 WaitingToWrite" "2 < length (threads ?B)"
    "threads ?B ! 2 \<noteq> Reading"
    by (simp_all add: at_phase_def eval_nat_numeral)
  from writer_preference [OF rb] have
    "\<forall>w r es c'. at_phase ?B w WaitingToWrite \<longrightarrow> r < length (threads ?B) \<longrightarrow>
        threads ?B ! r \<noteq> Reading \<longrightarrow> run ?B es = Some c' \<longrightarrow> threads c' ! r = Reading \<longrightarrow>
          (\<exists>es1 es2 c1. es = es1 @ es2 \<and> run ?B es1 = Some c1 \<and> at_phase c1 w Writing
             \<and> (\<forall>p cp. prefix p es1 \<longrightarrow> run ?B p = Some cp \<longrightarrow> threads cp ! r \<noteq> Reading))"
    by (rule conjunct2)
  with lb sb la(3) have gb:
    "\<exists>es1 es2 c1. ?es = es1 @ es2 \<and> run ?B es1 = Some c1 \<and> at_phase c1 1 Writing
       \<and> (\<forall>p cp. prefix p es1 \<longrightarrow> run ?B p = Some cp \<longrightarrow> threads cp ! 2 \<noteq> Reading)"
    by blast
  from ra sa ga rb sb gb show ?thesis by simp
qed

section \<open>Release without acquire\<close>

text \<open>
  C10, as stated, says that blocking is unchanged by an unmatched release. It is not: on a
  fresh object, \<open>start_read\<close> followed by \<open>start_write\<close> leaves the writer blocked behind the
  reader; after an unmatched \<open>end_read\<close> (which leaves \<open>active_readers = -1\<close>) the same
  \<open>start_read\<close> brings the object back to its initial fields, and \<open>start_write\<close> is let in
  while the reader is inside.
\<close>

theorem unmatched_release_changes_blocking:
  "start_read ReadersWriters = Returned (ReadersWriters\<lparr>active_readers := 1\<rparr>)
   \<and> start_write (ReadersWriters\<lparr>active_readers := 1\<rparr>)
       = Blocked (ReadersWriters\<lparr>active_readers := 1, waiting_writers := 1\<rparr>)
   \<and> end_read ReadersWriters = (ReadersWriters\<lparr>active_readers := - 1\<rparr>, [])
   \<and> start_read (ReadersWriters\<lparr>active_readers := - 1\<rparr>) = Returned ReadersWriters
   \<and> start_write ReadersWriters = Returned (ReadersWriters\<lparr>is_writing := True\<rparr>)"
  by (simp add: run_simps)

text \<open>
  C10, amended. \<open>end_read\<close> and \<open>end_write\<close> check nothing: in every state, acquired or
  not, they return after the same updates (\<open>active_readers - 1\<close>; \<open>is_writing\<close> false) and
  the same notification. On the initial state \<open>end_read\<close> leaves \<open>active_readers = -1\<close>
  and \<open>end_write\<close> changes nothing. \<open>end_read\<close> never changes the loop condition of
  \<open>start_read\<close>, and on the initial state neither loop condition is changed by the
  unmatched release itself.
\<close>

theorem unmatched_release_unchecked:
  "end_read s =
     (s\<lparr>active_readers := active_readers s - 1\<rparr>,
      if active_readers s - 1 = 0 then [Notify write_cv] else [])
   \<and> end_write s =
     (s\<lparr>is_writing := False\<rparr>,
      if waiting_writers s > 0 then [Notify write_cv] else [NotifyAll read_cv])
   \<and> active_readers (fst (end_read ReadersWriters)) = - 1
   \<and> fst (end_write ReadersWriters) = ReadersWriters
   \<and> start_read_waits (fst (end_read s)) = start_read_waits s
   \<and> start_read_waits (fst (end_read ReadersWriters)) = start_read_waits ReadersWriters
   \<and> start_write_waits (fst (end_read ReadersWriters)) = start_write_waits ReadersWriters"
  by (simp add: run_simps)

end
